theory Spec2Isabelle
  imports Main
begin

section \<open>Strings and the character tables of the runtime\<close>

text \<open>
  A Python \<open>str\<close> is a sequence of Unicode code points; offsets, \<open>len\<close>, \<open>find\<close> and
  slicing all count code points.  A string is modelled as the list of its code points.
\<close>

type_synonym ustring = "nat list"

text \<open>
  \<open>main.py\<close> relies on two character classes of the Python runtime: the word characters
  of \<open>\w\<close> (alphanumeric or underscore) and the whitespace of \<open>str.strip()\<close>.  On ASCII
  both are written out below.  Beyond ASCII they are tables of the Unicode database
  shipped with the interpreter, which are not part of \<open>main.py\<close>; they are taken as a
  parameter.
\<close>

record ucd =
  uni_alnum :: "nat \<Rightarrow> bool"
  uni_space :: "nat \<Rightarrow> bool"

definition ascii_alnum :: "nat \<Rightarrow> bool" where
  "ascii_alnum c = ((48 \<le> c \<and> c \<le> 57) \<or> (65 \<le> c \<and> c \<le> 90) \<or> (97 \<le> c \<and> c \<le> 122))"

definition ascii_space :: "nat \<Rightarrow> bool" where
  "ascii_space c = ((9 \<le> c \<and> c \<le> 13) \<or> (28 \<le> c \<and> c \<le> 32))"

definition word_char :: "ucd \<Rightarrow> nat \<Rightarrow> bool" where
  \<comment> \<open>\<open>\w\<close> of a \<open>str\<close> pattern: alphanumeric, or the underscore (code point 95)\<close>
  "word_char U c = (if c < 128 then ascii_alnum c \<or> c = 95 else uni_alnum U c)"

definition isspace :: "ucd \<Rightarrow> nat \<Rightarrow> bool" where
  "isspace U c = (if c < 128 then ascii_space c else uni_space U c)"

definition ustr :: "string \<Rightarrow> ustring" where
  \<comment> \<open>an ASCII literal as the list of its code points\<close>
  "ustr s = map of_char s"

section \<open>String operations of the runtime used by main.py\<close>

definition slice :: "ustring \<Rightarrow> nat \<Rightarrow> nat \<Rightarrow> ustring" where
  \<comment> \<open>\<open>s[a:b]\<close> for non-negative \<open>a\<close>, \<open>b\<close>: clamped to the string, empty when \<open>b \<le> a\<close>\<close>
  "slice s a b = take (b - a) (drop a s)"

definition startswith :: "ustring \<Rightarrow> ustring \<Rightarrow> bool" where
  "startswith s sub = (take (length sub) s = sub)"

text \<open>
  \<open>s.find(sub, start)\<close>: the lowest index \<open>i \<ge> start\<close> at which \<open>sub\<close> occurs in \<open>s\<close>,
  or \<open>-1\<close>.  \<open>find_scan sub i r\<close> scans the remainder \<open>r\<close> whose first character has
  index \<open>i\<close>.
\<close>

fun find_scan :: "ustring \<Rightarrow> nat \<Rightarrow> ustring \<Rightarrow> int" where
  "find_scan sub i [] = (if sub = [] then int i else - 1)"
| "find_scan sub i (c # cs) =
     (if startswith (c # cs) sub then int i else find_scan sub (Suc i) cs)"

definition find_sub :: "ustring \<Rightarrow> ustring \<Rightarrow> nat \<Rightarrow> int" where
  "find_sub s sub start = (if length s < start then - 1 else find_scan sub start (drop start s))"

definition strip :: "ucd \<Rightarrow> ustring \<Rightarrow> ustring" where
  "strip U s = rev (dropWhile (isspace U) (rev (dropWhile (isspace U) s)))"

text \<open>
  \<open>re.finditer(r'\b\w+\b', s)\<close>: the matches, left to right and non-overlapping, as
  \<open>(start, end)\<close> spans.  A match can only begin at a word character that follows a
  non-word character or the beginning of \<open>s\<close> (the leading \<open>\b\<close>), and the trailing
  \<open>\b\<close> forces the greedy \<open>\w+\<close> to take the whole run of word characters.  The first
  argument is the offset of the first character of the remainder being scanned.
\<close>

function finditer :: "ucd \<Rightarrow> nat \<Rightarrow> ustring \<Rightarrow> (nat \<times> nat) list" where
  "finditer U i [] = []"
| "finditer U i (c # cs) =
     (if word_char U c
      then (i, Suc i + length (takeWhile (word_char U) cs))
             # finditer U (Suc i + length (takeWhile (word_char U) cs))
                 (dropWhile (word_char U) cs)
      else finditer U (Suc i) cs)"
  by pat_completeness auto
termination
  by (relation "measure (\<lambda>(U, i, s). length s)")
     (auto simp: le_imp_less_Suc length_dropWhile_le)

section \<open>Word counter\<close>

definition count_words :: "ucd \<Rightarrow> ustring \<Rightarrow> nat" where
  "count_words U text = length (finditer U 0 text)"

section \<open>Chunk segmenter: the body of the main splitting loop\<close>

text \<open>
  The \<open>for match in re.finditer(...)\<close> loop with its \<open>break\<close>: the pair carried along is
  \<open>(words_in_chunk, last_match_end)\<close>.
\<close>

fun count_loop :: "int \<Rightarrow> nat \<Rightarrow> (nat \<times> nat) list \<Rightarrow> nat \<times> nat \<Rightarrow> nat \<times> nat" where
  "count_loop words_per_chunk current_pos [] (words_in_chunk, last_match_end) =
     (words_in_chunk, last_match_end)"
| "count_loop words_per_chunk current_pos (m # ms) (words_in_chunk, last_match_end) =
     (if int (Suc words_in_chunk) \<ge> words_per_chunk
      then (Suc words_in_chunk, current_pos + snd m)
      else count_loop words_per_chunk current_pos ms (Suc words_in_chunk, current_pos + snd m))"

definition raw_cutoff :: "ucd \<Rightarrow> ustring \<Rightarrow> nat \<Rightarrow> int \<Rightarrow> nat \<times> nat" where
  \<comment> \<open>\<open>words_in_chunk = 0\<close>, \<open>last_match_end = current_pos\<close>, then the counting loop over
      the matches in \<open>full_text[current_pos:]\<close>\<close>
  "raw_cutoff U full_text current_pos words_per_chunk =
     count_loop words_per_chunk current_pos (finditer U 0 (drop current_pos full_text))
       (0, current_pos)"

definition para_break :: ustring where
  "para_break = [10, 10]"

definition dot_break :: ustring where
  "dot_break = [46, 32]"

definition snap :: "ustring \<Rightarrow> nat \<Rightarrow> nat" where
  \<comment> \<open>the search for a paragraph or sentence boundary: \<open>chunk_end\<close> from \<open>last_match_end\<close>\<close>
  "snap full_text last_match_end =
     (let next_para = find_sub full_text para_break last_match_end;
          next_dot = find_sub full_text dot_break last_match_end
      in if next_para \<noteq> - 1 \<and> next_para < int last_match_end + 100 then nat (next_para + 2)
         else if next_dot \<noteq> - 1 \<and> next_dot < int last_match_end + 100 then nat (next_dot + 2)
         else last_match_end)"

datatype seg_result = NoWords | ChunkEnd nat

definition segment :: "ucd \<Rightarrow> ustring \<Rightarrow> nat \<Rightarrow> int \<Rightarrow> seg_result" where
  \<comment> \<open>one pass of the loop body up to \<open>chunk_end\<close>; \<open>NoWords\<close> is the \<open>break\<close> taken
      when \<open>words_in_chunk == 0\<close>\<close>
  "segment U full_text current_pos words_per_chunk =
     (case raw_cutoff U full_text current_pos words_per_chunk of
        (words_in_chunk, last_match_end) \<Rightarrow>
          if words_in_chunk = 0 then NoWords else ChunkEnd (snap full_text last_match_end))"

subsection \<open>Bounding the search upfront\<close>

text \<open>
  The alternative the specification compares with: the search itself is confined to the
  window.  \<open>s.find(sub, start, stop)\<close> searches \<open>s[:stop]\<close>; with \<open>stop\<close> 101 characters
  after the cutoff, a two-character break is found exactly at the offsets in
  \<open>[r, r + 100)\<close>, and no test of the distance is left.
\<close>

definition find_sub_bounded :: "ustring \<Rightarrow> ustring \<Rightarrow> nat \<Rightarrow> nat \<Rightarrow> int" where
  "find_sub_bounded s sub start stop = find_sub (take stop s) sub start"

definition snap_bounded :: "ustring \<Rightarrow> nat \<Rightarrow> nat" where
  "snap_bounded full_text last_match_end =
     (let next_para = find_sub_bounded full_text para_break last_match_end (last_match_end + 101);
          next_dot = find_sub_bounded full_text dot_break last_match_end (last_match_end + 101)
      in if next_para \<noteq> - 1 then nat (next_para + 2)
         else if next_dot \<noteq> - 1 then nat (next_dot + 2)
         else last_match_end)"

definition segment_bounded :: "ucd \<Rightarrow> ustring \<Rightarrow> nat \<Rightarrow> int \<Rightarrow> seg_result" where
  "segment_bounded U full_text current_pos words_per_chunk =
     (case raw_cutoff U full_text current_pos words_per_chunk of
        (words_in_chunk, last_match_end) \<Rightarrow>
          if words_in_chunk = 0 then NoWords
          else ChunkEnd (snap_bounded full_text last_match_end))"

section \<open>Chunk scheduler: the main splitting loop\<close>

text \<open>
  A chunk written to disk.  The file name is built from the book name, \<open>date\<close>,
  \<open>actual_words\<close>, the unit word and the reading speed, of which only the date and the
  word count vary during a run; the file holds \<open>chunk_text\<close>.  The span
  \<open>[span_start, span_end)\<close> is \<open>chunk_start\<close> and \<open>chunk_end\<close> of the iteration, kept
  to state properties of the schedule.  A date is its proleptic Gregorian ordinal
  (\<open>date.toordinal()\<close>), so that \<open>+ timedelta(days=1)\<close> is \<open>+ 1\<close>.
\<close>

record chunk =
  span_start :: nat
  span_end :: nat
  chunk_text :: ustring
  actual_words :: nat
  date :: int

record run_state =
  current_pos :: nat
  current_date :: int
  chunk_count :: nat
  files :: "chunk list"

datatype outcome = Completed | WriteError | OverflowError

definition max_ordinal :: int where
  \<comment> \<open>\<open>datetime.max.toordinal()\<close>, 31 December 9999\<close>
  "max_ordinal = 3652059"

text \<open>
  One iteration of \<open>while current_pos < len(full_text)\<close>.  \<open>Inl\<close> leaves the loop: by
  \<open>break\<close> (\<open>Completed\<close>), by the \<open>return\<close> of the \<open>except\<close> branch around the write
  (\<open>WriteError\<close>), or by the exception \<open>current_date += timedelta(days=1)\<close> raises past
  the last representable day.  \<open>Inr\<close> is the state at the next test of the loop
  condition.  Whether a write succeeds is decided by the file system, a parameter.
\<close>

definition loop_body ::
  "ucd \<Rightarrow> (chunk \<Rightarrow> bool) \<Rightarrow> ustring \<Rightarrow> int \<Rightarrow> run_state \<Rightarrow> (outcome \<times> run_state) + run_state" where
  "loop_body U can_write full_text words_per_chunk st =
     (case segment U full_text (current_pos st) words_per_chunk of
        NoWords \<Rightarrow> Inl (Completed, st)
      | ChunkEnd chunk_end \<Rightarrow>
          (let text = strip U (slice full_text (current_pos st) chunk_end) in
           if text = [] then Inl (Completed, st)
           else
             (let c = \<lparr>span_start = current_pos st, span_end = chunk_end, chunk_text = text,
                        actual_words = count_words U text, date = current_date st\<rparr>
              in if \<not> can_write c then Inl (WriteError, st)
                 else if max_ordinal < current_date st + 1
                 then Inl (OverflowError, st\<lparr>current_pos := chunk_end, files := files st @ [c]\<rparr>)
                 else Inr (st\<lparr>current_pos := chunk_end,
                              current_date := current_date st + 1,
                              chunk_count := chunk_count st + 1,
                              files := files st @ [c]\<rparr>))))"

section \<open>The search, the tokenizer and the progress of one iteration\<close>

text \<open>
  \<open>occurs_at s sub p\<close>: the substring \<open>sub\<close> lies in \<open>s\<close> at offset \<open>p\<close>.  It is the
  yardstick against which the search is specified.
\<close>

definition occurs_at :: "ustring \<Rightarrow> ustring \<Rightarrow> nat \<Rightarrow> bool" where
  "occurs_at s sub p = (p \<le> length s \<and> startswith (drop p s) sub)"

lemma occurs_at_0: "occurs_at s sub 0 = startswith s sub"
  by (simp add: occurs_at_def)

lemma occurs_at_Cons_Suc: "occurs_at (c # cs) sub (Suc j) = occurs_at cs sub j"
  by (simp add: occurs_at_def)

lemma occurs_at_Nil: "occurs_at [] sub j = (sub = [] \<and> j = 0)"
  by (auto simp: occurs_at_def startswith_def)

lemma find_scan_none:
  "(\<forall>j. \<not> occurs_at r sub j) \<Longrightarrow> find_scan sub i r = - 1"
proof (induction r arbitrary: i)
  case Nil
  then have "\<not> occurs_at [] sub 0" by blast
  then show ?case by (simp add: occurs_at_Nil)
next
  case (Cons c cs)
  from Cons.prems have "\<not> startswith (c # cs) sub"
    using occurs_at_0 by blast
  moreover from Cons.prems have "\<forall>j. \<not> occurs_at cs sub j"
    using occurs_at_Cons_Suc by blast
  ultimately show ?case using Cons.IH by simp
qed

lemma find_scan_first:
  "occurs_at r sub j \<Longrightarrow> (\<forall>j'<j. \<not> occurs_at r sub j') \<Longrightarrow> find_scan sub i r = int (i + j)"
proof (induction r arbitrary: i j)
  case Nil
  then show ?case by (simp add: occurs_at_Nil)
next
  case (Cons c cs)
  show ?case
  proof (cases j)
    case 0
    with Cons.prems show ?thesis by (simp add: occurs_at_0)
  next
    case (Suc k)
    with Cons.prems have k: "occurs_at cs sub k" "\<forall>j'<k. \<not> occurs_at cs sub j'"
      using occurs_at_Cons_Suc by (simp, metis Suc_less_eq occurs_at_Cons_Suc)
    from Cons.prems Suc have "\<not> startswith (c # cs) sub"
      using occurs_at_0 by (metis zero_less_Suc)
    then show ?thesis using Cons.IH[OF k, of "Suc i"] Suc by simp
  qed
qed

lemma occurs_at_drop: "start \<le> length s \<Longrightarrow> occurs_at (drop start s) sub j = occurs_at s sub (start + j)"
  by (auto simp: occurs_at_def add.commute)

lemma find_none:
  assumes "\<forall>p\<ge>start. \<not> occurs_at s sub p"
  shows "find_sub s sub start = - 1"
proof (cases "length s < start")
  case True then show ?thesis by (simp add: find_sub_def)
next
  case False
  then have "\<forall>j. \<not> occurs_at (drop start s) sub j"
    using assms by (simp add: occurs_at_drop)
  then show ?thesis using False by (simp add: find_sub_def find_scan_none)
qed

lemma find_first:
  assumes "start \<le> p" "occurs_at s sub p" "\<forall>q. start \<le> q \<and> q < p \<longrightarrow> \<not> occurs_at s sub q"
  shows "find_sub s sub start = int p"
proof -
  from assms have le: "start \<le> length s" by (simp add: occurs_at_def)
  have a: "occurs_at (drop start s) sub (p - start)"
    using assms le by (simp add: occurs_at_drop)
  have b: "\<forall>j'<p - start. \<not> occurs_at (drop start s) sub j'"
    using assms le by (simp add: occurs_at_drop)
  show ?thesis using find_scan_first[OF a b, of start] le assms(1) by (simp add: find_sub_def)
qed

lemma find_cases:
  "(find_sub s sub start = - 1 \<and> (\<forall>p\<ge>start. \<not> occurs_at s sub p)) \<or>
   (\<exists>p\<ge>start. find_sub s sub start = int p \<and> occurs_at s sub p \<and>
       (\<forall>q. start \<le> q \<and> q < p \<longrightarrow> \<not> occurs_at s sub q))"
proof (cases "\<exists>p\<ge>start. occurs_at s sub p")
  case False
  then show ?thesis using find_none by blast
next
  case True
  define P where "P = (\<lambda>p. start \<le> p \<and> occurs_at s sub p)"
  from True have ex: "\<exists>p. P p" by (auto simp: P_def)
  define p where "p = (LEAST p. P p)"
  have Pp: "P p" unfolding p_def using ex by (metis LeastI)
  have least: "\<And>q. q < p \<Longrightarrow> \<not> P q" unfolding p_def by (rule not_less_Least)
  have "find_sub s sub start = int p"
    using find_first[of start p s sub] Pp least by (auto simp: P_def)
  then show ?thesis using Pp least by (auto simp: P_def)
qed

lemma length_takeWhile_dropWhile:
  "length (takeWhile P xs) + length (dropWhile P xs) = length xs"
  by (metis length_append takeWhile_dropWhile_id)

lemma finditer_spans:
  "(a, b) \<in> set (finditer U i s) \<Longrightarrow> i \<le> a \<and> a < b \<and> b \<le> i + length s"
proof (induction U i s rule: finditer.induct)
  case (1 U i)
  then show ?case by simp
next
  case (2 U i c cs)
  show ?case
  proof (cases "word_char U c")
    case True
    let ?n = "length (takeWhile (word_char U) cs)"
    from "2.prems" True have
      "(a, b) = (i, Suc i + ?n) \<or> (a, b) \<in> set (finditer U (Suc i + ?n) (dropWhile (word_char U) cs))"
      by simp
    then show ?thesis
    proof
      assume "(a, b) = (i, Suc i + ?n)"
      then show ?thesis using length_takeWhile_le[of "word_char U" cs] by auto
    next
      assume "(a, b) \<in> set (finditer U (Suc i + ?n) (dropWhile (word_char U) cs))"
      from "2.IH"(1)[OF True this] show ?thesis
        using length_takeWhile_dropWhile[of "word_char U" cs] by auto
    qed
  next
    case False
    with "2.prems" have "(a, b) \<in> set (finditer U (Suc i) cs)" by simp
    from "2.IH"(2)[OF False this] show ?thesis by simp
  qed
qed

text \<open>The number of matches the counting loop consumes out of \<open>n\<close>, from a count of \<open>w\<close>.\<close>

definition counted :: "int \<Rightarrow> nat \<Rightarrow> nat \<Rightarrow> nat" where
  "counted words_per_chunk w n = min n (nat (max 1 (words_per_chunk - int w)))"

lemma count_loop_closed:
  "count_loop k cur ms (w, l) =
     (w + counted k w (length ms),
      if counted k w (length ms) = 0 then l else cur + snd (ms ! (counted k w (length ms) - 1)))"
proof (induction ms arbitrary: w l)
  case Nil
  then show ?case by (simp add: counted_def)
next
  case (Cons m ms)
  show ?case
  proof (cases "k \<le> int (Suc w)")
    case True
    then have "counted k w (length (m # ms)) = 1" by (simp add: counted_def)
    then show ?thesis using True by simp
  next
    case False
    then have c: "counted k w (Suc (length ms)) = Suc (counted k (Suc w) (length ms))"
      unfolding counted_def by (cases "length ms \<le> nat (k - int (Suc w))") auto
    show ?thesis using False Cons.IH[of "Suc w" "cur + snd m"]
      by (simp add: c nth_Cons split: nat.splits)
  qed
qed

lemma raw_cutoff_closed:
  "raw_cutoff U full_text s k =
     (let tokens = finditer U 0 (drop s full_text); n = counted k 0 (length tokens)
      in (n, if n = 0 then s else s + snd (tokens ! (n - 1))))"
  by (simp add: raw_cutoff_def count_loop_closed Let_def)

lemma raw_cutoff_bounds:
  assumes "raw_cutoff U full_text s k = (w, r)" "w \<noteq> 0"
  shows "s < r \<and> r \<le> length full_text"
proof -
  let ?tokens = "finditer U 0 (drop s full_text)"
  let ?n = "counted k 0 (length ?tokens)"
  from assms have n: "?n = w" "?n \<noteq> 0" and r: "r = s + snd (?tokens ! (?n - 1))"
    by (auto simp: raw_cutoff_closed Let_def)
  have "?n \<le> length ?tokens" by (simp add: counted_def)
  with n have "?tokens ! (?n - 1) \<in> set ?tokens" by simp
  then have "(fst (?tokens ! (?n - 1)), snd (?tokens ! (?n - 1))) \<in> set ?tokens" by simp
  from finditer_spans[OF this] have "0 < snd (?tokens ! (?n - 1))"
    "snd (?tokens ! (?n - 1)) \<le> length (drop s full_text)" by auto
  with r show ?thesis by auto
qed

lemma occurs_at_len: "occurs_at s sub p \<Longrightarrow> p + length sub \<le> length s"
  unfolding occurs_at_def startswith_def
  by (metis add.commute le_add_diff_inverse length_drop length_take min.absorb_iff2 add_le_cancel_left min.cobounded1 nat_le_linear)

lemma snap_bounds:
  assumes "r \<le> length full_text"
  shows "r \<le> snap full_text r \<and> snap full_text r \<le> length full_text"
proof -
  have a: "find_sub full_text sub r = int p \<Longrightarrow> length sub = 2 \<Longrightarrow> r \<le> p \<and> p + 2 \<le> length full_text" for p sub
    using find_cases[of full_text sub r] occurs_at_len[of full_text sub] by auto
  have b: "find_sub full_text sub r \<noteq> - 1 \<Longrightarrow> \<exists>p. find_sub full_text sub r = int p" for sub
    using find_cases[of full_text sub r] by auto
  have n: "nat (int p + 2) = p + 2" for p by simp
  show ?thesis
    using assms a[of para_break] a[of dot_break] b[of para_break] b[of dot_break]
    by (auto simp: snap_def Let_def para_break_def dot_break_def n)
qed

lemma segment_bounds:
  assumes "segment U full_text s k = ChunkEnd e"
  shows "s < e \<and> e \<le> length full_text"
proof -
  obtain w r where wr: "raw_cutoff U full_text s k = (w, r)" by (cases "raw_cutoff U full_text s k")
  with assms have w: "w \<noteq> 0" and e: "e = snap full_text r"
    by (auto simp: segment_def split: if_splits)
  from raw_cutoff_bounds[OF wr w] snap_bounds[of r full_text] e show ?thesis by auto
qed

lemma loop_body_Inr:
  assumes "loop_body U can_write full_text k st = Inr st'"
  shows "current_pos st < current_pos st' \<and> current_pos st' \<le> length full_text"
proof -
  from assms obtain e where "segment U full_text (current_pos st) k = ChunkEnd e" "current_pos st' = e"
    by (auto simp: loop_body_def Let_def split: seg_result.splits if_splits)
  with segment_bounds show ?thesis by metis
qed

section \<open>The loop\<close>

function split_loop ::
  "ucd \<Rightarrow> (chunk \<Rightarrow> bool) \<Rightarrow> ustring \<Rightarrow> int \<Rightarrow> run_state \<Rightarrow> outcome \<times> run_state" where
  "split_loop U can_write full_text words_per_chunk st =
     (if current_pos st < length full_text
      then (case loop_body U can_write full_text words_per_chunk st of
              Inl r \<Rightarrow> r
            | Inr st' \<Rightarrow> split_loop U can_write full_text words_per_chunk st')
      else (Completed, st))"
  by pat_completeness auto
termination
proof (relation "measure (\<lambda>(U, can_write, full_text, words_per_chunk, st). length full_text - current_pos st)")
  show "wf (measure (\<lambda>(U, can_write, full_text, words_per_chunk, st). length full_text - current_pos st))"
    by simp
next
  fix U :: ucd and can_write full_text words_per_chunk st st'
  assume "current_pos st < length full_text"
    and "loop_body U can_write full_text words_per_chunk st = Inr st'"
  then show "((U, can_write, full_text, words_per_chunk, st'), (U, can_write, full_text, words_per_chunk, st))
      \<in> measure (\<lambda>(U, can_write, full_text, words_per_chunk, st). length full_text - current_pos st)"
    using loop_body_Inr[of U can_write full_text words_per_chunk st st'] by auto
qed

text \<open>
  The loop unrolled at most \<open>n\<close> times: \<open>None\<close> when the loop condition would have to be
  tested once more.
\<close>

primrec split_loop_fuel ::
  "nat \<Rightarrow> ucd \<Rightarrow> (chunk \<Rightarrow> bool) \<Rightarrow> ustring \<Rightarrow> int \<Rightarrow> run_state \<Rightarrow> (outcome \<times> run_state) option" where
  "split_loop_fuel 0 U can_write full_text words_per_chunk st = None"
| "split_loop_fuel (Suc n) U can_write full_text words_per_chunk st =
     (if current_pos st < length full_text
      then (case loop_body U can_write full_text words_per_chunk st of
              Inl r \<Rightarrow> Some r
            | Inr st' \<Rightarrow> split_loop_fuel n U can_write full_text words_per_chunk st')
      else Some (Completed, st))"

section \<open>Statistics\<close>

datatype py_error = ZeroDivisionError

record summary =
  stats_days :: nat
  stats_avg_chunk :: nat

definition statistics :: "nat \<Rightarrow> int \<Rightarrow> nat \<Rightarrow> py_error + summary" where
  \<comment> \<open>\<open>total_hours = total_words / words_per_minute / 60\<close> is a float and only its
      failure is kept; \<open>avg_chunk_words\<close> is the guarded floor division\<close>
  "statistics total_words words_per_minute n =
     (if words_per_minute = 0 then Inl ZeroDivisionError
      else Inr \<lparr>stats_days = n,
                stats_avg_chunk = (if n > 0 then total_words div n else 0)\<rparr>)"

section \<open>A run of the scheduler\<close>

definition initial_state :: "nat \<Rightarrow> int \<Rightarrow> run_state" where
  \<comment> \<open>the cursor and the start date chosen before the loop, \<open>chunk_count = 0\<close>\<close>
  "initial_state pos day = \<lparr>current_pos = pos, current_date = day, chunk_count = 0, files = []\<rparr>"

text \<open>
  From the computation of \<open>total_words\<close> to the statistics: the statistics are computed
  only when the loop is left normally, since a failed write returns from \<open>split_book\<close>
  and an exception ends the run.
\<close>

definition scheduler ::
  "ucd \<Rightarrow> (chunk \<Rightarrow> bool) \<Rightarrow> ustring \<Rightarrow> int \<Rightarrow> int \<Rightarrow> nat \<Rightarrow> int
     \<Rightarrow> outcome \<times> run_state \<times> (py_error + summary) option" where
  "scheduler U can_write full_text words_per_minute minutes_per_day pos day =
     (let total_words = count_words U full_text;
          words_per_chunk = words_per_minute * minutes_per_day
      in case split_loop U can_write full_text words_per_chunk (initial_state pos day) of
           (Completed, st) \<Rightarrow>
             (Completed, st, Some (statistics total_words words_per_minute (chunk_count st)))
         | (failure, st) \<Rightarrow> (failure, st, None))"

section \<open>Schedules\<close>

text \<open>
  Vocabulary for the list of chunks a run writes: the untrimmed span of a chunk, spans
  that follow one another from an offset on, the offset where they end, and what every
  chunk of a run satisfies.
\<close>

definition span_of :: "ustring \<Rightarrow> chunk \<Rightarrow> ustring" where
  "span_of full_text c = slice full_text (span_start c) (span_end c)"

fun chained :: "nat \<Rightarrow> chunk list \<Rightarrow> bool" where
  "chained a [] = True"
| "chained a (c # cs) = (span_start c = a \<and> a < span_end c \<and> chained (span_end c) cs)"

definition spans_end :: "nat \<Rightarrow> chunk list \<Rightarrow> nat" where
  "spans_end a cs = (if cs = [] then a else span_end (last cs))"

text \<open>
  \<open>trace_ok U full_text a d cs\<close>: the chunks \<open>cs\<close> are those of consecutive iterations that
  begin with the cursor at \<open>a\<close> on day \<open>d\<close>.
\<close>

definition well_formed :: "ucd \<Rightarrow> ustring \<Rightarrow> chunk \<Rightarrow> bool" where
  "well_formed U full_text c =
     (span_start c < span_end c \<and> span_end c \<le> length full_text \<and>
      chunk_text c = strip U (span_of full_text c) \<and> chunk_text c \<noteq> [] \<and>
      actual_words c = count_words U (chunk_text c))"

fun trace_ok :: "ucd \<Rightarrow> ustring \<Rightarrow> nat \<Rightarrow> int \<Rightarrow> chunk list \<Rightarrow> bool" where
  "trace_ok U full_text a d [] = True"
| "trace_ok U full_text a d (c # cs) =
     (span_start c = a \<and> date c = d \<and> well_formed U full_text c \<and>
      trace_ok U full_text (span_end c) (d + 1) cs)"

text \<open>
  The three conditions under which the loop is left normally, at a cursor \<open>pos\<close>: the
  cursor is at or past the end of the document, no word token remains, or the trimmed
  chunk is empty.
\<close>

definition stop_condition :: "ucd \<Rightarrow> ustring \<Rightarrow> int \<Rightarrow> nat \<Rightarrow> bool" where
  "stop_condition U full_text words_per_chunk pos =
     (length full_text \<le> pos \<or>
      (case segment U full_text pos words_per_chunk of
         NoWords \<Rightarrow> True
       | ChunkEnd e \<Rightarrow> strip U (slice full_text pos e) = []))"


section \<open>Text normalizer\<close>

fun str :: "nat \<Rightarrow> ustring" where
  "str n = (if n < 10 then [48 + n] else str (n div 10) @ [48 + n mod 10])"

declare str.simps [simp del]

text \<open>
  \<open>s.replace(old, new)\<close>: every non-overlapping occurrence of \<open>old\<close>, found left to
  right, is replaced; an empty \<open>old\<close> matches before every character and at the end.
\<close>

function replace :: "ustring \<Rightarrow> ustring \<Rightarrow> ustring \<Rightarrow> ustring" where
  "replace [] old new = (if old = [] then new else [])"
| "replace (c # cs) old new =
     (if old = [] then new @ c # replace cs old new
      else if startswith (c # cs) old then new @ replace (drop (length old) (c # cs)) old new
      else c # replace cs old new)"
  by pat_completeness auto
termination
  by (relation "measure (\<lambda>(s, old, new). length s)") auto

text \<open>
  The three literals of a pass: \<open>[i]\<close>, the figure caption prefix (the Cyrillic letters
  U+0420 U+0438 U+0441, then \<open>". i. "\<close>) and the table caption prefix (U+0422 U+0430
  U+0431 U+043B U+0438 U+0446 U+0430, then \<open>" i. "\<close>).
\<close>

definition ref_marker :: "nat \<Rightarrow> ustring" where
  "ref_marker i = [91] @ str i @ [93]"

definition fig_marker :: "nat \<Rightarrow> ustring" where
  "fig_marker i = [1056, 1080, 1089, 46, 32] @ str i @ [46, 32]"

definition table_marker :: "nat \<Rightarrow> ustring" where
  "table_marker i = [1058, 1072, 1073, 1083, 1080, 1094, 1072, 32] @ str i @ [46, 32]"

definition clean_pass :: "ustring \<Rightarrow> nat \<Rightarrow> ustring" where
  \<comment> \<open>the body of \<open>for i in range(1, 1000)\<close>\<close>
  "clean_pass text i =
     replace (replace (replace text (ref_marker i) []) (fig_marker i) []) (table_marker i) []"

definition clean_text :: "ustring \<Rightarrow> ustring" where
  "clean_text text = foldl clean_pass text [1..<1000]"

text \<open>
  \<open>sub in s\<close>, and a text in which none of the markers removed by \<open>clean_text\<close>
  occurs.
\<close>

definition contains :: "ustring \<Rightarrow> ustring \<Rightarrow> bool" where
  "contains s sub = (find_sub s sub 0 \<noteq> - 1)"

definition marker_free :: "ustring \<Rightarrow> bool" where
  "marker_free t =
     list_all (\<lambda>i. \<not> contains t (ref_marker i) \<and> \<not> contains t (fig_marker i) \<and>
                    \<not> contains t (table_marker i)) [1..<1000]"

section \<open>Concrete inputs\<close>

text \<open>
  A fragment of the Unicode tables for concrete runs: the Cyrillic letters U+0410 to
  U+044F are alphanumeric and the no-break space U+00A0 is whitespace.
\<close>

definition sample_ucd :: ucd where
  "sample_ucd = \<lparr>uni_alnum = (\<lambda>c. 1040 \<le> c \<and> c \<le> 1103), uni_space = (\<lambda>c. c = 160)\<rparr>"

text \<open>
  A file system on which every write succeeds.  The runs below start on day 738886,
  the ordinal of 1 January 2024.
\<close>

definition all_writes_succeed :: "chunk \<Rightarrow> bool" where
  "all_writes_succeed c = True"

definition example_text :: ustring where
  "example_text =
     ustr ''Alpha beta gamma. Delta epsilon.'' @ [10, 10] @ ustr ''Zeta eta theta iota.''"

text \<open>A text without any break after the cutoff.\<close>

definition unbroken_text :: ustring where
  "unbroken_text = ustr ''Zeta eta theta iota.''"

text \<open>The state in which the run on the example text ends.\<close>

definition example_final :: run_state where
  "example_final =
     \<lparr>current_pos = 53, current_date = 738889, chunk_count = 3,
      files =
        [\<lparr>span_start = 0, span_end = 34, chunk_text = ustr ''Alpha beta gamma. Delta epsilon.'',
          actual_words = 5, date = 738886\<rparr>,
         \<lparr>span_start = 34, span_end = 48, chunk_text = ustr ''Zeta eta theta'',
          actual_words = 3, date = 738887\<rparr>,
         \<lparr>span_start = 48, span_end = 53, chunk_text = ustr ''iota'',
          actual_words = 1, date = 738888\<rparr>]\<rparr>"

text \<open>A reference nested in another, and a sentence citing one reference.\<close>

definition nested_refs :: ustring where
  "nested_refs = ustr ''[[2]1]''"

definition cited_text :: ustring where
  "cited_text = ustr ''See [1].''"

section \<open>The end-to-end example\<close>

text \<open>
  C1 (as amended).  For the text \<open>"Alpha beta gamma. Delta epsilon.\n\nZeta eta theta iota."\<close>,
  a target of 3 words and a start at 0, the raw cutoff falls right after "gamma"
  (3 words, offset 16).  The paragraph break at offset 32 lies within 100 characters of
  the cutoff and takes precedence over the sentence break at offset 16, so the chunk
  ends at offset 34 and its trimmed text is "Alpha beta gamma. Delta epsilon.".  The
  whole run writes three chunks.  This holds whatever the tables say beyond ASCII.
\<close>

theorem example_first_chunk:
  "raw_cutoff U example_text 0 3 = (3, 16) \<and>
   segment U example_text 0 3 = ChunkEnd 34 \<and>
   strip U (slice example_text 0 34) = ustr ''Alpha beta gamma. Delta epsilon.'' \<and>
   map chunk_text
     (files (snd (split_loop U all_writes_succeed example_text 3 (initial_state 0 738886)))) =
     [ustr ''Alpha beta gamma. Delta epsilon.'', ustr ''Zeta eta theta'', ustr ''iota'']"
  by code_simp

text \<open>
  C1 as stated fails: the first chunk written for the example is not
  "Alpha beta gamma.".
\<close>

theorem example_first_chunk_counterexample:
  "chunk_text (hd (files (snd (split_loop sample_ucd all_writes_succeed example_text 3
      (initial_state 0 738886))))) \<noteq> ustr ''Alpha beta gamma.''"
  by code_simp

section \<open>The empty document\<close>

text \<open>
  C9.  For the empty document the loop is never entered: no chunk is written,
  \<open>chunk_count\<close> is 0, and the statistics report 0 days and an average of 0 words per
  chunk; the guarded floor division does not fail.  The reading speed is not 0, as the
  configuration requires (it divides \<open>total_words\<close> in the estimate of the hours).
\<close>

theorem empty_document_guard:
  assumes "words_per_minute \<noteq> 0"
  shows "scheduler U can_write [] words_per_minute minutes_per_day pos day =
     (Completed,
      \<lparr>current_pos = pos, current_date = day, chunk_count = 0, files = []\<rparr>,
      Some (Inr \<lparr>stats_days = 0, stats_avg_chunk = 0\<rparr>))"
  using assms by (simp add: scheduler_def initial_state_def statistics_def)

theorem empty_document_guard_witness:
  "(350::int) \<noteq> 0 \<and>
   scheduler sample_ucd all_writes_succeed [] 350 8 0 738886 =
     (Completed,
      \<lparr>current_pos = 0, current_date = 738886, chunk_count = 0, files = []\<rparr>,
      Some (Inr \<lparr>stats_days = 0, stats_avg_chunk = 0\<rparr>))"
  using empty_document_guard [of 350 sample_ucd all_writes_succeed 8 0 738886] by simp

section \<open>Boundary snapping\<close>

lemma find_sub_in_window:
  assumes "r \<le> p" "p < r + n" "occurs_at s sub p"
  shows "\<exists>p0. find_sub s sub r = int p0 \<and> r \<le> p0 \<and> p0 \<le> p \<and> occurs_at s sub p0 \<and>
           (\<forall>j. r \<le> j \<and> j < p0 \<longrightarrow> \<not> occurs_at s sub j)"
proof -
  from find_cases[of s sub r] assms obtain p0 where
    p0: "r \<le> p0" "find_sub s sub r = int p0" "occurs_at s sub p0"
        "\<forall>q. r \<le> q \<and> q < p0 \<longrightarrow> \<not> occurs_at s sub q"
    by blast
  have "p0 \<le> p"
  proof (rule ccontr)
    assume "\<not> p0 \<le> p"
    then have "p < p0" by simp
    with p0(4) assms show False by blast
  qed
  with p0 show ?thesis by blast
qed

lemma find_sub_outside_window:
  assumes "\<forall>p. r \<le> p \<and> p < r + n \<longrightarrow> \<not> occurs_at s sub p"
  shows "\<not> (find_sub s sub r \<noteq> - 1 \<and> find_sub s sub r < int r + int n)"
proof
  assume a: "find_sub s sub r \<noteq> - 1 \<and> find_sub s sub r < int r + int n"
  with find_cases[of s sub r] obtain p where "r \<le> p" "find_sub s sub r = int p" "occurs_at s sub p"
    by auto
  with a assms show False by auto
qed

text \<open>
  C3.  Boundary precedence.  Let \<open>r\<close> be the raw cutoff of a pass that counted at least
  one word.  When a paragraph break and a sentence break both occur at offsets in
  \<open>[r, r + 100)\<close>, the chunk ends two characters after the first paragraph break at or
  after \<open>r\<close>, wherever the sentence break lies.
\<close>

theorem boundary_precedence:
  assumes "raw_cutoff U full_text s k = (w, r)" and "w \<noteq> 0"
    and "r \<le> p" and "p < r + 100" and "occurs_at full_text para_break p"
    and "r \<le> q" and "q < r + 100" and "occurs_at full_text dot_break q"
  shows "\<exists>p0. segment U full_text s k = ChunkEnd (p0 + 2) \<and> r \<le> p0 \<and> p0 \<le> p \<and>
            occurs_at full_text para_break p0 \<and>
            (\<forall>j. r \<le> j \<and> j < p0 \<longrightarrow> \<not> occurs_at full_text para_break j)"
proof -
  from find_sub_in_window[OF assms(3,4,5)] obtain p0 where
    p0: "find_sub full_text para_break r = int p0" "r \<le> p0" "p0 \<le> p"
        "occurs_at full_text para_break p0"
        "\<forall>j. r \<le> j \<and> j < p0 \<longrightarrow> \<not> occurs_at full_text para_break j"
    by blast
  from p0(1,3) assms(4) have "snap full_text r = p0 + 2"
    by (simp add: snap_def Let_def nat_add_distrib)
  with assms(1,2) have "segment U full_text s k = ChunkEnd (p0 + 2)"
    by (simp add: segment_def)
  with p0 show ?thesis by blast
qed

lemma example_breaks:
  "occurs_at example_text para_break 32 \<and> occurs_at example_text dot_break 16"
  by (simp add: occurs_at_def startswith_def para_break_def dot_break_def example_text_def ustr_def)

text \<open>
  In the example text the sentence break (offset 16) is nearer to the cutoff than the
  paragraph break (offset 32), and the chunk ends at 34.
\<close>

theorem boundary_precedence_witness:
  "raw_cutoff sample_ucd example_text 0 3 = (3, 16) \<and>
   occurs_at example_text para_break 32 \<and> occurs_at example_text dot_break 16 \<and>
   segment sample_ucd example_text 0 3 = ChunkEnd 34"
proof -
  have c: "raw_cutoff sample_ucd example_text 0 3 = (3, 16)" by code_simp
  have b: "occurs_at example_text para_break 32" "occurs_at example_text dot_break 16"
    using example_breaks by simp_all
  have s: "segment sample_ucd example_text 0 3 = ChunkEnd 34" by code_simp
  from boundary_precedence[OF c _ _ _ b(1) _ _ b(2)] c b s show ?thesis by simp
qed

text \<open>
  C4.  Hard-cut fallback.  When neither a paragraph break nor a sentence break occurs at
  an offset in \<open>[r, r + 100)\<close>, the chunk ends at the raw cutoff \<open>r\<close> itself, which is
  the start offset plus the end of the last counted token.
\<close>

theorem hard_cut_fallback:
  assumes "raw_cutoff U full_text s k = (w, r)" and "w \<noteq> 0"
    and "\<forall>p. r \<le> p \<and> p < r + 100 \<longrightarrow>
           \<not> occurs_at full_text para_break p \<and> \<not> occurs_at full_text dot_break p"
  shows "segment U full_text s k = ChunkEnd r \<and>
         w = counted k 0 (length (finditer U 0 (drop s full_text))) \<and>
         r = s + snd (finditer U 0 (drop s full_text) ! (w - 1))"
proof -
  have "\<not> (find_sub full_text para_break r \<noteq> - 1 \<and> find_sub full_text para_break r < int r + 100)"
    using find_sub_outside_window[of r 100 full_text para_break] assms(3) by simp
  moreover
  have "\<not> (find_sub full_text dot_break r \<noteq> - 1 \<and> find_sub full_text dot_break r < int r + 100)"
    using find_sub_outside_window[of r 100 full_text dot_break] assms(3) by simp
  ultimately have "snap full_text r = r"
    unfolding snap_def Let_def by auto
  with assms(1,2) have "segment U full_text s k = ChunkEnd r"
    by (simp add: segment_def)
  moreover from assms(1,2) have
    "w = counted k 0 (length (finditer U 0 (drop s full_text)))"
    "r = s + snd (finditer U 0 (drop s full_text) ! (w - 1))"
    by (auto simp: raw_cutoff_closed Let_def)
  ultimately show ?thesis by simp
qed

lemma no_occurrence:
  "find_sub s sub start = - 1 \<Longrightarrow> start \<le> p \<Longrightarrow> \<not> occurs_at s sub p"
  using find_cases[of s sub start] by auto

theorem hard_cut_fallback_witness:
  "raw_cutoff sample_ucd unbroken_text 0 3 = (3, 14) \<and>
   find_sub unbroken_text para_break 14 = - 1 \<and> find_sub unbroken_text dot_break 14 = - 1 \<and>
   segment sample_ucd unbroken_text 0 3 = ChunkEnd 14"
proof -
  have c: "raw_cutoff sample_ucd unbroken_text 0 3 = (3, 14)" by code_simp
  have f: "find_sub unbroken_text para_break 14 = - 1" "find_sub unbroken_text dot_break 14 = - 1"
    by code_simp+
  have n: "\<forall>p. 14 \<le> p \<and> p < 14 + 100 \<longrightarrow>
           \<not> occurs_at unbroken_text para_break p \<and> \<not> occurs_at unbroken_text dot_break p"
    using no_occurrence[OF f(1)] no_occurrence[OF f(2)] by blast
  from hard_cut_fallback[OF c _ n] c f show ?thesis by simp
qed

section \<open>Progress of the segmenter\<close>

lemma counted_zero: "counted k 0 n = 0 \<longleftrightarrow> n = 0"
  by (auto simp: counted_def min_def max_def)

text \<open>
  C5.  Segmenter progress.  A pass either finds no word token at or after \<open>s\<close>, the
  terminal case, in which the cutoff stays at \<open>s\<close> and the span is empty, or it returns
  an end offset strictly beyond \<open>s\<close> (and within the document).  So the end offset is
  never below \<open>s\<close>, and it equals \<open>s\<close> in the terminal case only.
\<close>

theorem segment_progress:
  "(segment U D s k = NoWords \<longleftrightarrow> finditer U 0 (drop s D) = []) \<and>
   (segment U D s k = NoWords \<longrightarrow>
      raw_cutoff U D s k = (0, s) \<and> strip U (slice D s s) = []) \<and>
   (\<forall>e. segment U D s k = ChunkEnd e \<longrightarrow> s < e \<and> e \<le> length D)"
proof -
  obtain w r where wr: "raw_cutoff U D s k = (w, r)" by (cases "raw_cutoff U D s k")
  then have w: "w = counted k 0 (length (finditer U 0 (drop s D)))"
    and r: "w = 0 \<longrightarrow> r = s"
    by (auto simp: raw_cutoff_closed Let_def)
  have a: "segment U D s k = NoWords \<longleftrightarrow> w = 0"
    using wr by (simp add: segment_def)
  have b: "w = 0 \<longleftrightarrow> finditer U 0 (drop s D) = []"
    using w counted_zero[of k "length (finditer U 0 (drop s D))"] by simp
  have c: "strip U (slice D s s) = []"
    by (simp add: strip_def slice_def)
  show ?thesis using a b c wr r segment_bounds[of U D s k] by auto
qed

theorem segment_progress_witness:
  "segment sample_ucd example_text 0 3 = ChunkEnd 34 \<and> (0::nat) < 34 \<and>
   34 \<le> length example_text \<and>
   segment sample_ucd example_text 53 3 = NoWords \<and>
   finditer sample_ucd 0 (drop 53 example_text) = []"
proof -
  have a: "segment sample_ucd example_text 0 3 = ChunkEnd 34" by code_simp
  have b: "segment sample_ucd example_text 53 3 = NoWords" by code_simp
  from segment_progress[of sample_ucd example_text 0 3] a
  have "(0::nat) < 34 \<and> 34 \<le> length example_text" by blast
  moreover from segment_progress[of sample_ucd example_text 53 3] b
  have "finditer sample_ucd 0 (drop 53 example_text) = []" by blast
  ultimately show ?thesis using a b by simp
qed

section \<open>Equivalence of the two search strategies\<close>

lemma occurs_at_alt:
  "occurs_at s sub p \<longleftrightarrow> p + length sub \<le> length s \<and> take (length sub) (drop p s) = sub"
proof
  assume "occurs_at s sub p"
  then show "p + length sub \<le> length s \<and> take (length sub) (drop p s) = sub"
    using occurs_at_len[of s sub p] by (simp add: occurs_at_def startswith_def)
next
  assume "p + length sub \<le> length s \<and> take (length sub) (drop p s) = sub"
  then show "occurs_at s sub p" by (simp add: occurs_at_def startswith_def)
qed

lemma occurs_at_take:
  "occurs_at (take n s) sub p \<longleftrightarrow> occurs_at s sub p \<and> p + length sub \<le> n"
proof (cases "p + length sub \<le> n")
  case True
  then have "take (length sub) (drop p (take n s)) = take (length sub) (drop p s)"
    by (simp add: drop_take min_def)
  with True show ?thesis by (auto simp: occurs_at_alt)
next
  case False
  then show ?thesis by (auto simp: occurs_at_alt)
qed

lemma find_sub_bounded_window:
  assumes "length sub = 2"
  shows "find_sub_bounded s sub r (r + 101) =
           (if find_sub s sub r \<noteq> - 1 \<and> find_sub s sub r < int r + 100
            then find_sub s sub r else - 1)"
proof -
  have occ: "occurs_at (take (r + 101) s) sub p \<longleftrightarrow> occurs_at s sub p \<and> p < r + 100" for p
    using assms by (auto simp: occurs_at_take)
  from find_cases[of s sub r] show ?thesis
  proof
    assume a: "find_sub s sub r = - 1 \<and> (\<forall>p\<ge>r. \<not> occurs_at s sub p)"
    then have "\<forall>p\<ge>r. \<not> occurs_at (take (r + 101) s) sub p" by (simp add: occ)
    from find_none[OF this] a show ?thesis by (simp add: find_sub_bounded_def)
  next
    assume "\<exists>p\<ge>r. find_sub s sub r = int p \<and> occurs_at s sub p \<and>
       (\<forall>q. r \<le> q \<and> q < p \<longrightarrow> \<not> occurs_at s sub q)"
    then obtain p where p: "r \<le> p" "find_sub s sub r = int p" "occurs_at s sub p"
      "\<forall>q. r \<le> q \<and> q < p \<longrightarrow> \<not> occurs_at s sub q" by blast
    show ?thesis
    proof (cases "p < r + 100")
      case True
      have "find_sub (take (r + 101) s) sub r = int p"
        using p True by (intro find_first) (auto simp: occ)
      with p(2) True show ?thesis by (simp add: find_sub_bounded_def)
    next
      case False
      have "\<forall>q\<ge>r. \<not> occurs_at (take (r + 101) s) sub q"
      proof (intro allI impI)
        fix q assume "r \<le> q"
        show "\<not> occurs_at (take (r + 101) s) sub q"
        proof
          assume "occurs_at (take (r + 101) s) sub q"
          then have "occurs_at s sub q" "q < r + 100" by (simp_all add: occ)
          with p(4) \<open>r \<le> q\<close> False show False by auto
        qed
      qed
      from find_none[OF this] p(2) False show ?thesis by (simp add: find_sub_bounded_def)
    qed
  qed
qed

text \<open>
  C10.  Search-strategy equivalence.  Searching the whole remaining text and testing the
  distance afterwards gives the same chunk end as searching the window only, for every
  text, start offset and target.
\<close>

theorem search_strategy_equivalence:
  "snap full_text r = snap_bounded full_text r \<and>
   segment U full_text s k = segment_bounded U full_text s k"
proof -
  have "snap full_text l = snap_bounded full_text l" for l
    by (simp add: snap_def snap_bounded_def Let_def find_sub_bounded_window
        para_break_def dot_break_def)
  then show ?thesis by (simp add: segment_def segment_bounded_def split: prod.splits)
qed

section \<open>The schedule of a run\<close>

text \<open>The ways one iteration can end, with what it leaves behind.\<close>

lemma loop_body_cases:
  obtains
    (break) "loop_body U cw full_text k st = Inl (Completed, st)"
      "case segment U full_text (current_pos st) k of NoWords \<Rightarrow> True
         | ChunkEnd e \<Rightarrow> strip U (slice full_text (current_pos st) e) = []"
  | (write_error) "loop_body U cw full_text k st = Inl (WriteError, st)"
      "\<not> (case segment U full_text (current_pos st) k of NoWords \<Rightarrow> True
         | ChunkEnd e \<Rightarrow> strip U (slice full_text (current_pos st) e) = [])"
  | (overflow) c where
      "loop_body U cw full_text k st =
         Inl (OverflowError, st\<lparr>current_pos := span_end c, files := files st @ [c]\<rparr>)"
      "span_start c = current_pos st" "date c = current_date st" "well_formed U full_text c" "cw c"
      "\<not> (case segment U full_text (current_pos st) k of NoWords \<Rightarrow> True
         | ChunkEnd e \<Rightarrow> strip U (slice full_text (current_pos st) e) = [])"
  | (continue) c where
      "loop_body U cw full_text k st =
         Inr (st\<lparr>current_pos := span_end c, current_date := current_date st + 1,
                 chunk_count := chunk_count st + 1, files := files st @ [c]\<rparr>)"
      "span_start c = current_pos st" "date c = current_date st" "well_formed U full_text c" "cw c"
      "current_date st + 1 \<le> max_ordinal"
      "\<not> (case segment U full_text (current_pos st) k of NoWords \<Rightarrow> True
         | ChunkEnd e \<Rightarrow> strip U (slice full_text (current_pos st) e) = [])"
proof (cases "segment U full_text (current_pos st) k")
  case NoWords
  then show ?thesis using break by (simp add: loop_body_def)
next
  case (ChunkEnd e)
  note seg = this
  let ?text = "strip U (slice full_text (current_pos st) e)"
  let ?c = "\<lparr>span_start = current_pos st, span_end = e, chunk_text = ?text,
             actual_words = count_words U ?text, date = current_date st\<rparr>"
  show ?thesis
  proof (cases "?text = []")
    case True
    then show ?thesis using break seg by (simp add: loop_body_def)
  next
    case False
    note nonempty = this
    have wf: "well_formed U full_text ?c"
      using segment_bounds[OF seg] nonempty by (simp add: well_formed_def span_of_def)
    show ?thesis
    proof (cases "cw ?c")
      case False
      then show ?thesis using write_error seg nonempty by (simp add: loop_body_def Let_def)
    next
      case True
      note ok = this
      show ?thesis
      proof (cases "max_ordinal < current_date st + 1")
        case True
        then show ?thesis using overflow[of ?c] seg nonempty ok wf
          by (simp add: loop_body_def Let_def)
      next
        case False
        then show ?thesis using continue[of ?c] seg nonempty ok wf
          by (simp add: loop_body_def Let_def)
      qed
    qed
  qed
qed

lemma split_loop_trace:
  "split_loop U cw t k st = (out, st') \<Longrightarrow>
     \<exists>cs. files st' = files st @ cs \<and> trace_ok U t (current_pos st) (current_date st) cs \<and>
          current_pos st' = spans_end (current_pos st) cs \<and> list_all cw cs"
proof (induction U cw t k st rule: split_loop.induct)
  case (1 U cw t k st)
  show ?case
  proof (cases "current_pos st < length t")
    case False
    with "1.prems" have "st' = st" by simp
    then show ?thesis by (simp add: spans_end_def)
  next
    case True
    note inside = this
    show ?thesis
    proof (cases rule: loop_body_cases[of U cw t k st])
      case break
      with "1.prems" inside have "st' = st" by simp
      then show ?thesis by (simp add: spans_end_def)
    next
      case write_error
      with "1.prems" inside have "st' = st" by simp
      then show ?thesis by (simp add: spans_end_def)
    next
      case (overflow c)
      with "1.prems" inside have "st' = st\<lparr>current_pos := span_end c, files := files st @ [c]\<rparr>"
        by simp
      with overflow show ?thesis by (simp add: spans_end_def)
    next
      case (continue c)
      let ?st1 = "st\<lparr>current_pos := span_end c, current_date := current_date st + 1,
                 chunk_count := chunk_count st + 1, files := files st @ [c]\<rparr>"
      from "1.prems" inside continue(1) have run: "split_loop U cw t k ?st1 = (out, st')"
        by simp
      from "1.IH"[OF inside continue(1) run] obtain cs where
        cs: "files st' = files ?st1 @ cs" "trace_ok U t (current_pos ?st1) (current_date ?st1) cs"
            "current_pos st' = spans_end (current_pos ?st1) cs" "list_all cw cs"
        by blast
      have "files st' = files st @ (c # cs)" using cs(1) by simp
      moreover have "trace_ok U t (current_pos st) (current_date st) (c # cs)"
        using cs(2) continue by simp
      moreover have "current_pos st' = spans_end (current_pos st) (c # cs)"
        using cs(3) by (simp add: spans_end_def)
      moreover have "list_all cw (c # cs)" using cs(4) continue by simp
      ultimately show ?thesis by blast
    qed
  qed
qed

lemma trace_ok_chained: "trace_ok U t a d cs \<Longrightarrow> chained a cs"
  by (induction cs arbitrary: a d) (auto simp: well_formed_def)

lemma trace_ok_dates: "trace_ok U t a d cs \<Longrightarrow> i < length cs \<Longrightarrow> date (cs ! i) = d + int i"
proof (induction cs arbitrary: a d i)
  case Nil
  then show ?case by simp
next
  case (Cons c cs)
  then show ?case by (cases i) auto
qed

lemma trace_ok_texts:
  "trace_ok U t a d cs \<Longrightarrow> list_all (\<lambda>c. chunk_text c = strip U (span_of t c)) cs"
  by (induction cs arbitrary: a d) (auto simp: well_formed_def)

lemma slice_append:
  "a \<le> b \<Longrightarrow> b \<le> c \<Longrightarrow> slice t a b @ slice t b c = slice t a c"
proof -
  assume ab: "a \<le> b" and bc: "b \<le> c"
  have "take ((b - a) + (c - b)) (drop a t) =
          take (b - a) (drop a t) @ take (c - b) (drop (b - a) (drop a t))"
    by (rule take_add)
  with ab bc show ?thesis by (simp add: slice_def)
qed

lemma trace_ok_end: "trace_ok U t a d cs \<Longrightarrow> a \<le> spans_end a cs"
proof (induction cs arbitrary: a d)
  case Nil
  then show ?case by (simp add: spans_end_def)
next
  case (Cons c cs)
  from Cons.prems have "trace_ok U t (span_end c) (d + 1) cs" by simp
  then have "span_end c \<le> spans_end (span_end c) cs" by (rule Cons.IH)
  moreover from Cons.prems have "a < span_end c" by (simp add: well_formed_def)
  ultimately show ?case by (simp add: spans_end_def split: if_splits)
qed

lemma trace_ok_concat:
  "trace_ok U t a d cs \<Longrightarrow> concat (map (span_of t) cs) = slice t a (spans_end a cs)"
proof (induction cs arbitrary: a d)
  case Nil
  then show ?case by (simp add: spans_end_def slice_def)
next
  case (Cons c cs)
  from Cons.prems have rest: "trace_ok U t (span_end c) (d + 1) cs" by simp
  have tail: "concat (map (span_of t) cs) = slice t (span_end c) (spans_end (span_end c) cs)"
    using rest by (rule Cons.IH)
  have le: "span_end c \<le> spans_end (span_end c) cs"
    using rest by (rule trace_ok_end)
  from Cons.prems have c: "span_start c = a" "a \<le> span_end c" by (simp_all add: well_formed_def)
  have e: "spans_end a (c # cs) = spans_end (span_end c) cs" by (simp add: spans_end_def)
  have h: "span_of t c = slice t a (span_end c)" using c(1) by (simp add: span_of_def)
  show ?case by (simp add: tail h e slice_append[OF c(2) le])
qed

text \<open>
  C6.  Schedule coverage.  In every run, started with the cursor at \<open>pos\<close> and however it
  ends, the untrimmed spans of the chunks written are non-empty and follow one another
  without gap or overlap from \<open>pos\<close> to the final cursor; their concatenation is
  \<open>full_text[pos:final cursor]\<close>; and the text written for a chunk is its span with the
  whitespace at both ends trimmed.
\<close>

theorem schedule_coverage:
  assumes "split_loop U can_write full_text words_per_chunk (initial_state pos day) = (out, st')"
  shows "chained pos (files st') \<and>
         current_pos st' = spans_end pos (files st') \<and>
         pos \<le> current_pos st' \<and>
         concat (map (span_of full_text) (files st')) = slice full_text pos (current_pos st') \<and>
         list_all (\<lambda>c. chunk_text c = strip U (span_of full_text c)) (files st')"
proof -
  from split_loop_trace[OF assms] obtain cs where
    cs: "files st' = cs" "trace_ok U full_text pos day cs" "current_pos st' = spans_end pos cs"
    by (auto simp: initial_state_def)
  show ?thesis
    using cs trace_ok_chained[OF cs(2)] trace_ok_end[OF cs(2)] trace_ok_concat[OF cs(2)]
      trace_ok_texts[OF cs(2)]
    by simp
qed

text \<open>
  C7.  Date monotonicity.  In every run the date of chunk \<open>i\<close> is the date of chunk 0
  plus \<open>i\<close> days, and chunk 0 has the start date; so consecutive chunks are one day
  apart.
\<close>

theorem date_monotonicity:
  assumes "split_loop U can_write full_text words_per_chunk (initial_state pos day) = (out, st')"
    and "i < length (files st')"
  shows "date (files st' ! i) = date (files st' ! 0) + int i \<and> date (files st' ! 0) = day"
proof -
  from split_loop_trace[OF assms(1)] obtain cs where
    cs: "files st' = cs" "trace_ok U full_text pos day cs"
    by (auto simp: initial_state_def)
  from assms(2) cs(1) have "0 < length cs" by (cases cs) auto
  from trace_ok_dates[OF cs(2) this] trace_ok_dates[OF cs(2), of i] assms(2) cs(1)
  show ?thesis by simp
qed

lemma split_loop_fuel_mono:
  "split_loop_fuel n U cw t k st = Some r \<Longrightarrow> n \<le> m \<Longrightarrow> split_loop_fuel m U cw t k st = Some r"
proof (induction n arbitrary: m st)
  case 0
  then show ?case by simp
next
  case (Suc n)
  from Suc.prems(2) obtain m' where m: "m = Suc m'" "n \<le> m'" by (cases m) auto
  show ?case
  proof (cases "current_pos st < length t")
    case False
    with Suc.prems(1) m show ?thesis by simp
  next
    case True
    show ?thesis
    proof (cases "loop_body U cw t k st")
      case (Inl x)
      with Suc.prems(1) True m show ?thesis by simp
    next
      case (Inr st1)
      with Suc.prems(1) True have "split_loop_fuel n U cw t k st1 = Some r" by simp
      from Suc.IH[OF this m(2)] Inr True m(1) show ?thesis by simp
    qed
  qed
qed

lemma split_loop_fuel_enough:
  "split_loop_fuel (Suc (length t - current_pos st)) U cw t k st = Some (split_loop U cw t k st)"
proof (induction U cw t k st rule: split_loop.induct)
  case (1 U cw t k st)
  show ?case
  proof (cases "current_pos st < length t")
    case False
    then show ?thesis by simp
  next
    case True
    show ?thesis
    proof (cases "loop_body U cw t k st")
      case (Inl x)
      with True show ?thesis by simp
    next
      case (Inr st1)
      from "1.IH"[OF True Inr]
      have ih: "split_loop_fuel (Suc (length t - current_pos st1)) U cw t k st1 =
                  Some (split_loop U cw t k st1)" .
      from loop_body_Inr[OF Inr] True
      have "Suc (length t - current_pos st1) \<le> length t - current_pos st" by linarith
      from split_loop_fuel_mono[OF ih this] Inr True show ?thesis by simp
    qed
  qed
qed

lemma split_loop_monotone:
  assumes "split_loop U cw t k st = (out, st')"
  shows "current_pos st \<le> current_pos st'"
proof -
  from split_loop_trace[OF assms] obtain cs where
    "trace_ok U t (current_pos st) (current_date st) cs"
    "current_pos st' = spans_end (current_pos st) cs" by blast
  then show ?thesis using trace_ok_end by metis
qed

lemma split_loop_stops_iff:
  "split_loop U cw t k st = (Completed, st) \<longleftrightarrow> stop_condition U t k (current_pos st)"
proof (cases "current_pos st < length t")
  case False
  then show ?thesis by (simp add: stop_condition_def)
next
  case True
  note inside = this
  show ?thesis
  proof (cases rule: loop_body_cases[of U cw t k st])
    case break
    with inside show ?thesis by (simp add: stop_condition_def)
  next
    case write_error
    with inside show ?thesis by (simp add: stop_condition_def)
  next
    case (overflow c)
    with inside show ?thesis by (simp add: stop_condition_def)
  next
    case (continue c)
    let ?st1 = "st\<lparr>current_pos := span_end c, current_date := current_date st + 1,
               chunk_count := chunk_count st + 1, files := files st @ [c]\<rparr>"
    have "split_loop U cw t k st \<noteq> (Completed, st)"
    proof
      assume "split_loop U cw t k st = (Completed, st)"
      with inside continue(1) have "split_loop U cw t k ?st1 = (Completed, st)" by simp
      from split_loop_monotone[OF this] have "span_end c \<le> current_pos st" by simp
      with continue(2,4) show False by (simp add: well_formed_def)
    qed
    with inside continue(7) show ?thesis by (simp add: stop_condition_def)
  qed
qed

lemma split_loop_final:
  "split_loop U cw t k st = (Completed, st') \<Longrightarrow> stop_condition U t k (current_pos st')"
proof (induction U cw t k st rule: split_loop.induct)
  case (1 U cw t k st)
  show ?case
  proof (cases "current_pos st < length t")
    case False
    with "1.prems" show ?thesis by (simp add: stop_condition_def)
  next
    case True
    note inside = this
    show ?thesis
    proof (cases rule: loop_body_cases[of U cw t k st])
      case break
      from "1.prems" inside break(1) have e: "st' = st" by simp
      show ?thesis unfolding e stop_condition_def using break(2) by (rule disjI2)
    next
      case write_error
      with "1.prems" inside show ?thesis by simp
    next
      case (overflow c)
      with "1.prems" inside show ?thesis by simp
    next
      case (continue c)
      with "1.prems" inside "1.IH"[OF inside continue(1)] show ?thesis by simp
    qed
  qed
qed

lemma loop_body_advance:
  assumes "loop_body U cw t k st = Inr st1 \<or> loop_body U cw t k st = Inl (OverflowError, st1)"
  shows "current_pos st < current_pos st1 \<and> length (files st1) = Suc (length (files st))"
proof (cases rule: loop_body_cases[of U cw t k st])
  case break
  with assms show ?thesis by simp
next
  case write_error
  with assms show ?thesis by simp
next
  case (overflow c)
  with assms show ?thesis by (auto simp: well_formed_def)
next
  case (continue c)
  with assms show ?thesis by (auto simp: well_formed_def)
qed

text \<open>
  C8.  Scheduler termination.  For every document and every target the loop is left
  after at most \<open>len(full_text) - current_pos + 1\<close> tests of its condition.  It is left
  normally at a state exactly when the cursor has reached the end of the document, no
  word token remains at the cursor, or the trimmed chunk is empty, and one of the three
  holds at the cursor with which a normally ended run finishes.  Every iteration that
  writes a chunk moves the cursor strictly forward.
\<close>

theorem scheduler_termination:
  "split_loop_fuel (Suc (length full_text - current_pos st)) U can_write full_text words_per_chunk st =
     Some (split_loop U can_write full_text words_per_chunk st) \<and>
   (split_loop U can_write full_text words_per_chunk st = (Completed, st) \<longleftrightarrow>
      stop_condition U full_text words_per_chunk (current_pos st)) \<and>
   (\<forall>st'. split_loop U can_write full_text words_per_chunk st = (Completed, st') \<longrightarrow>
      stop_condition U full_text words_per_chunk (current_pos st')) \<and>
   (\<forall>st1. loop_body U can_write full_text words_per_chunk st = Inr st1 \<or>
          loop_body U can_write full_text words_per_chunk st = Inl (OverflowError, st1) \<longrightarrow>
      current_pos st < current_pos st1 \<and> length (files st1) = Suc (length (files st)))"
  using split_loop_fuel_enough[of full_text st U can_write words_per_chunk]
    split_loop_stops_iff[of U can_write full_text words_per_chunk st]
    split_loop_final[of U can_write full_text words_per_chunk st]
    loop_body_advance[of U can_write full_text words_per_chunk st]
  by blast

lemma example_run:
  "split_loop sample_ucd all_writes_succeed example_text 3 (initial_state 0 738886) =
     (Completed, example_final)"
  by code_simp

text \<open>The run on the example text: three contiguous spans covering offsets 0 to 53.\<close>

theorem schedule_coverage_witness:
  "split_loop sample_ucd all_writes_succeed example_text 3 (initial_state 0 738886) =
     (Completed, example_final) \<and>
   chained 0 (files example_final) \<and>
   concat (map (span_of example_text) (files example_final)) = slice example_text 0 53 \<and>
   list_all (\<lambda>c. chunk_text c = strip sample_ucd (span_of example_text c)) (files example_final)"
proof -
  have "current_pos example_final = 53" by (simp add: example_final_def)
  with schedule_coverage[OF example_run] example_run show ?thesis by simp
qed

text \<open>The run on the example text: the third chunk is dated two days after the first.\<close>

theorem date_monotonicity_witness:
  "split_loop sample_ucd all_writes_succeed example_text 3 (initial_state 0 738886) =
     (Completed, example_final) \<and>
   (2::nat) < length (files example_final) \<and>
   date (files example_final ! 2) = date (files example_final ! 0) + 2 \<and>
   date (files example_final ! 0) = 738886"
proof -
  have l: "(2::nat) < length (files example_final)" by (simp add: example_final_def)
  from date_monotonicity[OF example_run l] example_run l show ?thesis by simp
qed

text \<open>
  The run on the example text ends within 55 tests of the loop condition, at offset 53,
  where no word token remains.
\<close>

theorem scheduler_termination_witness:
  "split_loop_fuel 55 sample_ucd all_writes_succeed example_text 3 (initial_state 0 738886) =
     Some (Completed, example_final) \<and>
   stop_condition sample_ucd example_text 3 53 \<and>
   \<not> stop_condition sample_ucd example_text 3 0"
proof -
  let ?st = "initial_state 0 738886"
  have len: "Suc (length example_text - current_pos ?st) = 55"
    by (simp add: example_text_def ustr_def initial_state_def)
  have pos: "current_pos example_final = 53" "current_pos ?st = 0"
    by (simp_all add: example_final_def initial_state_def)
  have ne: "(Completed, example_final) \<noteq> (Completed, ?st)"
    by (simp add: example_final_def initial_state_def)
  from scheduler_termination[of example_text ?st sample_ucd all_writes_succeed 3]
  show ?thesis unfolding example_run len using pos ne by auto
qed

section \<open>The normalizer applied twice\<close>

lemma replace_absent:
  "old \<noteq> [] \<Longrightarrow> \<forall>j. \<not> occurs_at s old j \<Longrightarrow> replace s old new = s"
proof (induction s)
  case Nil
  then show ?case by simp
next
  case (Cons c cs)
  from Cons.prems(2) have "\<not> startswith (c # cs) old"
    using occurs_at_0 by blast
  moreover from Cons.prems(2) have "\<forall>j. \<not> occurs_at cs old j"
    using occurs_at_Cons_Suc by blast
  ultimately show ?case using Cons.IH Cons.prems(1) by simp
qed

lemma contains_iff: "contains s sub \<longleftrightarrow> (\<exists>p. occurs_at s sub p)"
  using find_cases[of s sub 0] by (auto simp: contains_def)

lemma replace_not_contained:
  assumes "old \<noteq> []" and "\<not> contains s old"
  shows "replace s old new = s"
  using assms by (simp add: contains_iff replace_absent)

lemma markers_nonempty:
  "ref_marker i \<noteq> []" "fig_marker i \<noteq> []" "table_marker i \<noteq> []"
  by (simp_all add: ref_marker_def fig_marker_def table_marker_def)

lemma clean_pass_id:
  assumes "\<not> contains t (ref_marker i)" "\<not> contains t (fig_marker i)"
    "\<not> contains t (table_marker i)"
  shows "clean_pass t i = t"
  using assms by (simp add: clean_pass_def replace_not_contained markers_nonempty)

lemma foldl_clean_pass_id:
  "\<forall>i\<in>set js. clean_pass t i = t \<Longrightarrow> foldl clean_pass t js = t"
  by (induction js) simp_all

lemma clean_text_marker_free:
  assumes "marker_free t"
  shows "clean_text t = t"
proof -
  have "\<forall>i\<in>set [1..<1000]. clean_pass t i = t"
  proof
    fix i assume "i \<in> set [1..<1000]"
    with assms have "\<not> contains t (ref_marker i) \<and> \<not> contains t (fig_marker i) \<and>
        \<not> contains t (table_marker i)"
      unfolding marker_free_def list_all_iff by blast
    then show "clean_pass t i = t" by (simp add: clean_pass_id)
  qed
  then show ?thesis unfolding clean_text_def by (rule foldl_clean_pass_id)
qed

text \<open>
  C2 (as amended).  Cleaning a text in which no marker occurs changes nothing.  So
  \<open>clean_text(clean_text(t)) = clean_text(t)\<close> for every \<open>t\<close> whose first cleaning leaves
  none of the markers behind: no reference \<open>[i]\<close>, figure caption prefix or table
  caption prefix, for \<open>i\<close> from 1 to 999.
\<close>

theorem clean_text_idempotent_once_clean:
  assumes "marker_free (clean_text t)"
  shows "clean_text (clean_text t) = clean_text t"
  using assms by (rule clean_text_marker_free)

text \<open>Every marker begins with a character that must then occur in the text.\<close>

lemma occurs_at_hd: "occurs_at s (c # m) p \<Longrightarrow> c \<in> set s"
proof -
  assume "occurs_at s (c # m) p"
  then have "take (Suc (length m)) (drop p s) = c # m"
    by (simp add: occurs_at_def startswith_def)
  then have "c \<in> set (take (Suc (length m)) (drop p s))" by simp
  then show ?thesis by (meson in_set_dropD in_set_takeD)
qed

lemma contains_hd: "contains s (c # m) \<Longrightarrow> c \<in> set s"
  using occurs_at_hd by (auto simp: contains_iff)

lemma no_marker_chars:
  assumes "91 \<notin> set t" "1056 \<notin> set t" "1058 \<notin> set t"
  shows "\<not> contains t (ref_marker i) \<and> \<not> contains t (fig_marker i) \<and>
         \<not> contains t (table_marker i)"
  using assms contains_hd[of t 91] contains_hd[of t 1056] contains_hd[of t 1058]
  by (auto simp: ref_marker_def fig_marker_def table_marker_def)

lemma marker_free_chars:
  assumes "91 \<notin> set t" "1056 \<notin> set t" "1058 \<notin> set t"
  shows "marker_free t"
  unfolding marker_free_def list_all_iff using no_marker_chars[OF assms] by blast

lemma foldl_clean_pass_chars:
  assumes "91 \<notin> set t" "1056 \<notin> set t" "1058 \<notin> set t"
  shows "foldl clean_pass t js = t"
  using no_marker_chars[OF assms] by (intro foldl_clean_pass_id) (simp add: clean_pass_id)

lemma passes_from_1: "[1..<1000] = 1 # [2..<1000]"
proof -
  have "[1..<1000] = 1 # [Suc 1..<1000]" by (rule upt_conv_Cons) simp
  moreover have "Suc 1 = 2" by simp
  ultimately show ?thesis by (simp only:)
qed

lemma passes_from_2: "[2..<1000] = 2 # [3..<1000]"
proof -
  have "[2..<1000] = 2 # [Suc 2..<1000]" by (rule upt_conv_Cons) simp
  moreover have "Suc 2 = 3" by simp
  ultimately show ?thesis by (simp only:)
qed

lemma str_digit: "n < 10 \<Longrightarrow> str n = [48 + n]"
  by (simp add: str.simps[of n])

lemma cited_pass_1: "clean_pass cited_text 1 = ustr ''See .''"
  by (simp add: clean_pass_def cited_text_def ustr_def ref_marker_def fig_marker_def
      table_marker_def str_digit startswith_def)

lemma cited_clean: "clean_text cited_text = ustr ''See .''"
proof -
  have "clean_text cited_text = foldl clean_pass (ustr ''See .'') [2..<1000]"
    by (simp only: clean_text_def passes_from_1 foldl_Cons cited_pass_1)
  also have "\<dots> = ustr ''See .''"
    by (rule foldl_clean_pass_chars) (simp_all add: ustr_def)
  finally show ?thesis .
qed

text \<open>Cleaning "See [1]." gives "See .", which holds no marker.\<close>

theorem clean_text_idempotent_once_clean_witness:
  "clean_text cited_text = ustr ''See .'' \<and> marker_free (clean_text cited_text) \<and>
   clean_text (clean_text cited_text) = clean_text cited_text"
proof -
  have c: "marker_free (clean_text cited_text)"
    unfolding cited_clean by (rule marker_free_chars) (simp_all add: ustr_def)
  from clean_text_idempotent_once_clean[OF c] cited_clean c show ?thesis by simp
qed

text \<open>The decimal numerals, and the one marker that fits into \<open>[1]\<close>.\<close>

lemma str_nonempty: "str n \<noteq> []"
  by (subst str.simps) simp

lemma str_long: "10 \<le> n \<Longrightarrow> 2 \<le> length (str n)"
proof -
  assume "10 \<le> n"
  then have "str n = str (n div 10) @ [48 + n mod 10]" by (subst str.simps) simp
  moreover have "1 \<le> length (str (n div 10))"
    using str_nonempty[of "n div 10"] by (cases "str (n div 10)") simp_all
  ultimately show ?thesis by simp
qed

lemma str_is_1: "str n = [49] \<Longrightarrow> n = 1"
proof -
  assume a: "str n = [49]"
  have "n < 10"
  proof (rule ccontr)
    assume "\<not> n < 10"
    then have "2 \<le> length (str n)" by (simp add: str_long)
    with a show False by simp
  qed
  with a show ?thesis by (simp add: str_digit)
qed

lemma ref_1_only:
  assumes "contains [91, 49, 93] (ref_marker i)"
  shows "i = 1"
proof -
  from assms obtain p where "occurs_at [91, 49, 93] (ref_marker i) p"
    by (auto simp: contains_iff)
  then have len: "p + (2 + length (str i)) \<le> 3"
    and eq: "take (2 + length (str i)) (drop p [91, 49, 93]) = 91 # str i @ [93]"
    by (simp_all add: occurs_at_alt ref_marker_def)
  have "1 \<le> length (str i)" using str_nonempty[of i] by (cases "str i") simp_all
  with len have p: "p = 0" and l: "length (str i) = 1" by simp_all
  from l obtain d where d: "str i = [d]" by (cases "str i") simp_all
  with eq p have "d = 49" by simp
  with d have "str i = [49]" by simp
  then show ?thesis by (rule str_is_1)
qed

lemma leftover_pass:
  assumes "3 \<le> i"
  shows "clean_pass [91, 49, 93] i = [91, 49, 93]"
proof (rule clean_pass_id)
  show "\<not> contains [91, 49, 93] (ref_marker i)"
    using ref_1_only[of i] assms by auto
  show "\<not> contains [91, 49, 93] (fig_marker i)"
    using contains_hd[of "[91, 49, 93]" 1056] by (auto simp: fig_marker_def)
  show "\<not> contains [91, 49, 93] (table_marker i)"
    using contains_hd[of "[91, 49, 93]" 1058] by (auto simp: table_marker_def)
qed

lemma nested_pass_1: "clean_pass nested_refs 1 = nested_refs"
  by (simp add: clean_pass_def nested_refs_def ustr_def ref_marker_def fig_marker_def
      table_marker_def str_digit startswith_def)

lemma nested_pass_2: "clean_pass nested_refs 2 = [91, 49, 93]"
  by (simp add: clean_pass_def nested_refs_def ustr_def ref_marker_def fig_marker_def
      table_marker_def str_digit startswith_def)

lemma nested_clean: "clean_text nested_refs = [91, 49, 93]"
proof -
  have "clean_text nested_refs = foldl clean_pass [91, 49, 93] [3..<1000]"
    by (simp only: clean_text_def passes_from_1 passes_from_2 foldl_Cons nested_pass_1
        nested_pass_2)
  also have "\<dots> = [91, 49, 93]"
  proof (rule foldl_clean_pass_id, rule ballI)
    fix i :: nat
    assume "i \<in> set [3..<1000]"
    then have "3 \<le> i" by (simp only: set_upt atLeastLessThan_iff)
    then show "clean_pass [91, 49, 93] i = [91, 49, 93]" by (rule leftover_pass)
  qed
  finally show ?thesis .
qed

lemma leftover_pass_1: "clean_pass [91, 49, 93] 1 = []"
  by (simp add: clean_pass_def ref_marker_def fig_marker_def table_marker_def str_digit
      startswith_def)

lemma leftover_clean: "clean_text [91, 49, 93] = []"
proof -
  have "clean_text [91, 49, 93] = foldl clean_pass [] [2..<1000]"
    by (simp only: clean_text_def passes_from_1 foldl_Cons leftover_pass_1)
  also have "\<dots> = []"
    by (rule foldl_clean_pass_chars) simp_all
  finally show ?thesis .
qed

text \<open>
  C2 as stated fails.  Removing \<open>[2]\<close> from \<open>[[2]1]\<close> in the second pass leaves \<open>[1]\<close>,
  whose pass is over; a second cleaning removes it.
\<close>

theorem clean_text_idempotent_counterexample:
  "clean_text (clean_text nested_refs) \<noteq> clean_text nested_refs"
  by (simp add: nested_clean leftover_clean)

end
